theory Spec2Isabelle
  imports Main
begin

section \<open>Pinned blocks: the data model of pinned-blocks.ts\<close>

text \<open>
  The interface \<^verbatim>\<open>PinnedBlock\<close>. Hashes are JavaScript strings. \<open>number\<close> and
  \<open>refCount\<close> are JavaScript numbers that only ever hold integers here (a header's block
  number, and a counter moved by \<open>+1\<close> and \<open>-1\<close>), so both are \<open>int\<close>; nothing in the
  source keeps \<open>refCount\<close> from becoming negative. \<open>children\<close> is a \<^verbatim>\<open>Set<string>\<close>
  that the source only adds to and deletes from.
\<close>

record PinnedBlock =
  hash :: string
  number :: int
  parent :: string
  children :: "string set"
  runtime :: string
  refCount :: int

text \<open>
  Modelled from the spec: the type \<^verbatim>\<open>Runtime\<close> and its constructor
  \<^verbatim>\<open>getRuntimeCreator\<close> live in \<^verbatim>\<open>get-runtime-creator.ts\<close>, which is not among the
  sources. The spec describes a runtime descriptor as carrying a usage counter that tracks
  which tracked blocks reference it: \<^verbatim>\<open>addBlock\<close> counts a block in, \<^verbatim>\<open>deleteBlocks\<close>
  counts the given blocks out in one batch and returns the remaining count, and a
  descriptor created for a hash is in use by the block of that hash. The counter is
  therefore the size of a set of block hashes, kept here as a duplicate-free list in
  insertion order. The decoded metadata and its asynchronous activation
  (\<^verbatim>\<open>runtime.subscribe()\<close>) do not touch the reducer's state and are left out.
\<close>

record Runtime =
  usages :: "string list"

definition getRuntime :: "string \<Rightarrow> Runtime" where
  "getRuntime h = \<lparr>usages = [h]\<rparr>"

definition addBlock :: "string \<Rightarrow> Runtime \<Rightarrow> Runtime" where
  "addBlock h r = (if h \<in> set (usages r) then r else r\<lparr>usages := usages r @ [h]\<rparr>)"

definition deleteBlocks :: "string list \<Rightarrow> Runtime \<Rightarrow> Runtime" where
  "deleteBlocks hs r = r\<lparr>usages := filter (\<lambda>u. u \<notin> set hs) (usages r)\<rparr>"

definition usagesCount :: "Runtime \<Rightarrow> nat" where
  "usagesCount r = length (usages r)"

text \<open>
  The type \<^verbatim>\<open>PinnedBlocks\<close>: the accumulator of the \<^verbatim>\<open>scan\<close>. \<open>blocks\<close> is the
  \<^verbatim>\<open>Map\<close> from hash to block node, \<open>runtimes\<close> the plain object from runtime id to
  descriptor. \<open>finalizedRuntime\<close> is \<open>None\<close> for the seed's placeholder \<^verbatim>\<open>{}\<close> and for
  \<^verbatim>\<open>undefined\<close>; the source holds the descriptor by reference, and this field records
  the descriptor as it was when it was assigned.
\<close>

record PinnedBlocks =
  best :: string
  finalized :: string
  runtimes :: "string \<rightharpoonup> Runtime"
  blocks :: "string \<rightharpoonup> PinnedBlock"
  finalizedRuntime :: "Runtime option"

text \<open>
  The events that reach the \<^verbatim>\<open>scan\<close>. \<^verbatim>\<open>merge\<close> joins three typed sources: the follow
  events (an \<^verbatim>\<open>initialized\<close> event already carries the number and parent hash fetched
  from the header), the \<^verbatim>\<open>blockUsage\<close> events, and the \<^verbatim>\<open>unpin\<close> events fed back from
  the cleaner.
\<close>

datatype follow =
    Initialized string string int   \<comment> \<open>finalizedBlockHash, parentHash, number\<close>
  | NewBlock string string bool     \<comment> \<open>parentBlockHash, blockHash, newRuntime\<close>
  | BestBlockChanged string         \<comment> \<open>bestBlockHash\<close>
  | Finalized "string list"         \<comment> \<open>finalizedBlockHashes\<close>

datatype usage = Hold string | Release string

datatype event = Follow follow | BlockUsage usage | Unpin "string list"

text \<open>
  Reading a property of \<^verbatim>\<open>undefined\<close> throws a \<^verbatim>\<open>TypeError\<close>; the error ends the
  stream, so no state is returned with it. Hashes are taken not to name a property that
  a plain object inherits (\<^verbatim>\<open>constructor\<close>, \<^verbatim>\<open>toString\<close>), so a lookup in \<open>runtimes\<close>
  finds what the reducer stored or \<^verbatim>\<open>undefined\<close>.
\<close>

datatype error = TypeError

section \<open>The reducer of the scan\<close>

definition usageHash :: "usage \<Rightarrow> string" where
  "usageHash u = (case u of Hold h \<Rightarrow> h | Release h \<Rightarrow> h)"

definition usageDelta :: "usage \<Rightarrow> int" where
  "usageDelta u = (case u of Hold _ \<Rightarrow> 1 | Release _ \<Rightarrow> - 1)"

text \<open>One round of the \<^verbatim>\<open>forEach\<close> of the \<^verbatim>\<open>unpin\<close> case.\<close>

definition unpinOne :: "(string \<rightharpoonup> PinnedBlock) \<Rightarrow> string \<Rightarrow> (string \<rightharpoonup> PinnedBlock)" where
  "unpinOne bs h =
     (case bs h of
        None \<Rightarrow> bs
      | Some b \<Rightarrow>
          (case bs (parent b) of
             None \<Rightarrow> bs
           | Some p \<Rightarrow> bs(parent b \<mapsto> p\<lparr>children := children p - {h}\<rparr>)) (h := None))"

text \<open>
  The second half of the \<^verbatim>\<open>unpin\<close> case: every descriptor drops the unpinned hashes,
  and the descriptors left without usages are deleted from \<open>runtimes\<close>.
\<close>

definition unpinRuntimes :: "string list \<Rightarrow> (string \<rightharpoonup> Runtime) \<Rightarrow> (string \<rightharpoonup> Runtime)" where
  "unpinRuntimes hs rs =
     (\<lambda>k. case rs k of
             None \<Rightarrow> None
           | Some r \<Rightarrow>
               (if usagesCount (deleteBlocks hs r) = 0 then None
                else Some (deleteBlocks hs r)))"

fun reducer :: "PinnedBlocks \<Rightarrow> event \<Rightarrow> error + PinnedBlocks" where
  "reducer a (Follow (Initialized h p n)) =
     Inr (a\<lparr>finalized := h, best := h,
            blocks := (blocks a)(h \<mapsto>
              \<lparr>hash = h, number = n, parent = p, children = {}, runtime = h, refCount = 0\<rparr>),
            runtimes := (runtimes a)(h \<mapsto> getRuntime h),
            finalizedRuntime := Some (getRuntime h)\<rparr>)"
| "reducer a (Follow (NewBlock p h newRuntime)) =
     (case blocks a p of
        None \<Rightarrow> Inl TypeError
      | Some parentNode \<Rightarrow>
          (let blocks1 = (blocks a)(p \<mapsto> parentNode\<lparr>children := insert h (children parentNode)\<rparr>);
               runtimes1 = (if newRuntime then (runtimes a)(h \<mapsto> getRuntime h) else runtimes a);
               block = \<lparr>hash = h, number = number parentNode + 1, parent = p, children = {},
                        runtime = (if newRuntime then h else runtime parentNode), refCount = 0\<rparr>
           in case runtimes1 (runtime block) of
                None \<Rightarrow> Inl TypeError
              | Some r \<Rightarrow>
                  Inr (a\<lparr>blocks := blocks1(h \<mapsto> block),
                         runtimes := runtimes1(runtime block \<mapsto> addBlock h r)\<rparr>)))"
| "reducer a (Follow (BestBlockChanged h)) = Inr (a\<lparr>best := h\<rparr>)"
| "reducer a (Follow (Finalized hs)) =
     (if hs = [] then Inl TypeError
      else case blocks a (last hs) of
             None \<Rightarrow> Inl TypeError
           | Some b \<Rightarrow>
               Inr (a\<lparr>finalized := last hs, finalizedRuntime := runtimes a (runtime b)\<rparr>))"
| "reducer a (BlockUsage u) =
     (case blocks a (usageHash u) of
        None \<Rightarrow> Inl TypeError
      | Some b \<Rightarrow>
          Inr (a\<lparr>blocks := (blocks a)(usageHash u \<mapsto> b\<lparr>refCount := refCount b + usageDelta u\<rparr>)\<rparr>))"
| "reducer a (Unpin hs) =
     Inr (a\<lparr>blocks := foldl unpinOne (blocks a) hs,
            runtimes := unpinRuntimes hs (runtimes a)\<rparr>)"

text \<open>The seed of the \<^verbatim>\<open>scan\<close>.\<close>

definition seed :: PinnedBlocks where
  "seed = \<lparr>best = [], finalized = [], runtimes = Map.empty, blocks = Map.empty,
           finalizedRuntime = None\<rparr>"

text \<open>Folding a list of events; the first error ends the fold.\<close>

fun scan :: "PinnedBlocks \<Rightarrow> event list \<Rightarrow> error + PinnedBlocks" where
  "scan a [] = Inr a"
| "scan a (e # es) = (case reducer a e of Inl err \<Rightarrow> Inl err | Inr a' \<Rightarrow> scan a' es)"

section \<open>The cleaner\<close>

text \<open>
  \<^verbatim>\<open>result\<close> is a \<^verbatim>\<open>Set<string>\<close> that is later spread into an array, so it is kept
  as a list in insertion order; \<open>setAdd\<close> is \<^verbatim>\<open>Set.prototype.add\<close>.
\<close>

definition setAdd :: "string \<Rightarrow> string list \<Rightarrow> string list" where
  "setAdd x xs = (if x \<in> set xs then xs else xs @ [x])"

text \<open>
  The \<^verbatim>\<open>while\<close> loop of the cleaner. Nothing bounds it: on a cycle of parent links it
  never ends, which is the value \<open>None\<close> here. \<^verbatim>\<open>!current.refCount\<close> holds exactly when
  the counter is \<open>0\<close>, and what is added is the node's own \<open>hash\<close> field.
\<close>

partial_function (option) walk ::
  "(string \<rightharpoonup> PinnedBlock) \<Rightarrow> PinnedBlock \<Rightarrow> string list \<Rightarrow> string list option" where
  "walk bs current result =
     (case bs (parent current) of
        None \<Rightarrow> Some result
      | Some p \<Rightarrow> walk bs p (if refCount p = 0 then setAdd (hash p) result else result))"

text \<open>
  The first \<^verbatim>\<open>map\<close> of \<^verbatim>\<open>cleaner$\<close>. The finalized node is read with a non-null
  assertion; when it is missing, reading \<^verbatim>\<open>current.parent\<close> throws.
\<close>

definition cleanerCollect :: "PinnedBlocks \<Rightarrow> (error + string list) option" where
  "cleanerCollect pinned =
     (case blocks pinned (finalized pinned) of
        None \<Rightarrow> Some (Inl TypeError)
      | Some current \<Rightarrow> map_option Inr (walk (blocks pinned) current []))"

text \<open>The \<^verbatim>\<open>map\<close> after \<^verbatim>\<open>pairwise\<close>: \<^verbatim>\<open>[...current].filter((x) => prev.has(x))\<close>.\<close>

definition confirmed :: "string list \<Rightarrow> string list \<Rightarrow> string list" where
  "confirmed pv current = filter (\<lambda>x. x \<in> set pv) current"

section \<open>The merged stream\<close>

text \<open>
  What \<^verbatim>\<open>merge\<close> receives from outside: a follow event, a usage event, or a tick of
  \<^verbatim>\<open>interval(100)\<close>.
\<close>

datatype input = FromFollow follow | FromBlockUsage usage | Tick

text \<open>
  The state of the whole stream: the accumulator of the \<^verbatim>\<open>scan\<close>; whether a snapshot
  has been published yet (\<^verbatim>\<open>withLatestFrom\<close> drops every tick before that); the value
  that \<^verbatim>\<open>pairwise\<close> holds back; and the arguments \<^verbatim>\<open>onUnpin\<close> has been called with.

  Modelled from the spec: \<^verbatim>\<open>selfDependent\<close> and \<^verbatim>\<open>shareLatest\<close> come from the
  repository's \<^verbatim>\<open>utils\<close>, which are not among the sources. The spec has the confirmed
  set emitted to the reducer as an \<^verbatim>\<open>unpin\<close> event, closing the loop, together with the
  notification of the node, and has consumers and the cleaner read the latest snapshot.
  So a tick that confirms a non-empty set folds the \<^verbatim>\<open>unpin\<close> event at once, on the
  state the tick has read, and then calls \<^verbatim>\<open>onUnpin\<close>; and the snapshot a tick reads is
  the accumulator as the last fold left it.
\<close>

record pipeline =
  acc :: PinnedBlocks
  published :: bool
  previous :: "string list option"
  unpinned :: "string list list"

definition foldEvent :: "pipeline \<Rightarrow> event \<Rightarrow> error + pipeline" where
  "foldEvent s e =
     (case reducer (acc s) e of
        Inl err \<Rightarrow> Inl err
      | Inr a \<Rightarrow> Inr (s\<lparr>acc := a, published := True\<rparr>))"

definition tick :: "pipeline \<Rightarrow> (error + pipeline) option" where
  "tick s =
     (if \<not> published s then Some (Inr s)
      else case cleanerCollect (acc s) of
             None \<Rightarrow> None
           | Some (Inl err) \<Rightarrow> Some (Inl err)
           | Some (Inr current) \<Rightarrow>
               (case previous s of
                  None \<Rightarrow> Some (Inr (s\<lparr>previous := Some current\<rparr>))
                | Some pv \<Rightarrow>
                    (let hashes = confirmed pv current;
                         s1 = s\<lparr>previous := Some current\<rparr>
                     in if length hashes > 0
                        then (case foldEvent s1 (Unpin hashes) of
                                Inl err \<Rightarrow> Some (Inl err)
                              | Inr s2 \<Rightarrow> Some (Inr (s2\<lparr>unpinned := unpinned s2 @ [hashes]\<rparr>)))
                        else Some (Inr s1))))"

fun step :: "pipeline \<Rightarrow> input \<Rightarrow> (error + pipeline) option" where
  "step s (FromFollow f) = Some (foldEvent s (Follow f))"
| "step s (FromBlockUsage u) = Some (foldEvent s (BlockUsage u))"
| "step s Tick = tick s"

fun run :: "pipeline \<Rightarrow> input list \<Rightarrow> (error + pipeline) option" where
  "run s [] = Some (Inr s)"
| "run s (i # ins) =
     (case step s i of
        None \<Rightarrow> None
      | Some (Inl err) \<Rightarrow> Some (Inl err)
      | Some (Inr s') \<Rightarrow> run s' ins)"

definition start :: pipeline where
  "start = \<lparr>acc = seed, published = False, previous = None, unpinned = []\<rparr>"

text \<open>The hashes handed to \<^verbatim>\<open>onUnpin\<close> between two states of the stream.\<close>

definition emitted :: "pipeline \<Rightarrow> pipeline \<Rightarrow> string list" where
  "emitted s s' = concat (drop (length (unpinned s)) (unpinned s'))"

section \<open>Published snapshots and the objects they share\<close>

text \<open>
  The reducer assigns to the fields of its accumulator and calls mutating methods on the
  \<^verbatim>\<open>Map\<close> and on the \<open>runtimes\<close> object; it never replaces either container. After
  each step \<^verbatim>\<open>map((x) => ({ ...x }))\<close> publishes a new object with the same five field
  values. So an object of type \<^verbatim>\<open>PinnedBlocks\<close> holds its two strings by value and its two
  containers by address, and the containers live in a store. The descriptor field is kept
  as in \<open>PinnedBlocks\<close>.
\<close>

type_synonym addr = nat

record PinnedBlocksObj =
  bestF :: string
  finalizedF :: string
  runtimesRef :: addr
  blocksRef :: addr
  finalizedRuntimeF :: "Runtime option"

record heap =
  mapObjs :: "addr \<rightharpoonup> (string \<rightharpoonup> PinnedBlock)"
  recordObjs :: "addr \<rightharpoonup> (string \<rightharpoonup> Runtime)"

text \<open>What a reader of the object sees when following its references in the store.\<close>

definition load :: "heap \<Rightarrow> PinnedBlocksObj \<Rightarrow> PinnedBlocks option" where
  "load hp x =
     (case mapObjs hp (blocksRef x) of
        None \<Rightarrow> None
      | Some m \<Rightarrow>
          (case recordObjs hp (runtimesRef x) of
             None \<Rightarrow> None
           | Some r \<Rightarrow>
               Some \<lparr>best = bestF x, finalized = finalizedF x, runtimes = r, blocks = m,
                     finalizedRuntime = finalizedRuntimeF x\<rparr>))"

text \<open>
  One step of the \<^verbatim>\<open>scan\<close> on the store: the reducer's changes to the containers are
  written at the addresses the accumulator holds, and its assignments to the other
  fields go to the accumulator object. The two addresses of the seed stay in the store
  (\<open>allocated\<close> below), so the first branch is never taken on a run from the seed.
\<close>

definition scanStep :: "heap \<times> PinnedBlocksObj \<Rightarrow> event \<Rightarrow> error + heap \<times> PinnedBlocksObj" where
  "scanStep st e =
     (case load (fst st) (snd st) of
        None \<Rightarrow> Inl TypeError
      | Some a \<Rightarrow>
          (case reducer a e of
             Inl err \<Rightarrow> Inl err
           | Inr a' \<Rightarrow>
               Inr ((fst st)\<lparr>mapObjs := (mapObjs (fst st))(blocksRef (snd st) \<mapsto> blocks a'),
                             recordObjs :=
                               (recordObjs (fst st))(runtimesRef (snd st) \<mapsto> runtimes a')\<rparr>,
                    (snd st)\<lparr>bestF := best a', finalizedF := finalized a',
                             finalizedRuntimeF := finalizedRuntime a'\<rparr>)))"

fun scanAll :: "heap \<times> PinnedBlocksObj \<Rightarrow> event list \<Rightarrow> error + heap \<times> PinnedBlocksObj" where
  "scanAll st [] = Inr st"
| "scanAll st (e # es) =
     (case scanStep st e of Inl err \<Rightarrow> Inl err | Inr st' \<Rightarrow> scanAll st' es)"

text \<open>The spread \<^verbatim>\<open>{ ...x }\<close>.\<close>

definition shallowCopy :: "PinnedBlocksObj \<Rightarrow> PinnedBlocksObj" where
  "shallowCopy x = \<lparr>bestF = bestF x, finalizedF = finalizedF x, runtimesRef = runtimesRef x,
                    blocksRef = blocksRef x, finalizedRuntimeF = finalizedRuntimeF x\<rparr>"

text \<open>The seed object with its fresh \<^verbatim>\<open>Map\<close> and its fresh \<^verbatim>\<open>{}\<close>.\<close>

definition seedStore :: "heap \<times> PinnedBlocksObj" where
  "seedStore =
     (\<lparr>mapObjs = [0 \<mapsto> Map.empty], recordObjs = [1 \<mapsto> Map.empty]\<rparr>,
      \<lparr>bestF = [], finalizedF = [], runtimesRef = 1, blocksRef = 0, finalizedRuntimeF = None\<rparr>)"

text \<open>
  The snapshot published after the events \<open>es\<close>, as a consumer that kept it reads it
  once the events \<open>later\<close> have been folded as well.
\<close>

definition viewAfter :: "event list \<Rightarrow> event list \<Rightarrow> PinnedBlocks option" where
  "viewAfter es later =
     (case scanAll seedStore es of
        Inl _ \<Rightarrow> None
      | Inr st1 \<Rightarrow>
          (case scanAll st1 later of
             Inl _ \<Rightarrow> None
           | Inr st2 \<Rightarrow> load (fst st2) (shallowCopy (snd st1))))"

definition allocated :: "heap \<times> PinnedBlocksObj \<Rightarrow> bool" where
  "allocated st \<longleftrightarrow> blocksRef (snd st) \<in> dom (mapObjs (fst st))
                   \<and> runtimesRef (snd st) \<in> dom (recordObjs (fst st))"

section \<open>Notions the properties are stated with\<close>

text \<open>Every node sits in the map under its own hash.\<close>

definition keysOk :: "(string \<rightharpoonup> PinnedBlock) \<Rightarrow> bool" where
  "keysOk bs \<longleftrightarrow> (\<forall>k b. bs k = Some b \<longrightarrow> hash b = k)"

text \<open>
  \<open>ancestor bs k a\<close>: from the tracked block \<open>k\<close>, following parent links through
  tracked blocks only, one reaches \<open>a\<close> after at least one step.
\<close>

inductive ancestor :: "(string \<rightharpoonup> PinnedBlock) \<Rightarrow> string \<Rightarrow> string \<Rightarrow> bool"
  for bs :: "string \<rightharpoonup> PinnedBlock" where
  parent: "bs k = Some b \<Longrightarrow> bs (parent b) = Some p \<Longrightarrow> ancestor bs k (parent b)"
| above: "bs k = Some b \<Longrightarrow> bs (parent b) = Some p \<Longrightarrow> ancestor bs (parent b) a
          \<Longrightarrow> ancestor bs k a"

definition ancestors :: "(string \<rightharpoonup> PinnedBlock) \<Rightarrow> string \<Rightarrow> string set" where
  "ancestors bs k = {x. ancestor bs k x}"

definition zeroAncestors :: "(string \<rightharpoonup> PinnedBlock) \<Rightarrow> string \<Rightarrow> string set" where
  "zeroAncestors bs k = {x. ancestor bs k x \<and> (\<exists>b. bs x = Some b \<and> refCount b = 0)}"

text \<open>
  \<open>onPath bs fin bst x\<close>: \<open>x\<close> is the best block or one of its ancestors, and the
  finalized block is among the ancestors of \<open>x\<close>.
\<close>

definition onPath :: "(string \<rightharpoonup> PinnedBlock) \<Rightarrow> string \<Rightarrow> string \<Rightarrow> string \<Rightarrow> bool" where
  "onPath bs fin bst x \<longleftrightarrow> (x = bst \<or> ancestor bs bst x) \<and> ancestor bs x fin"

text \<open>
  A sequence of events in which every \<^verbatim>\<open>release\<close> of a tracked block finds that block's
  \<open>refCount\<close> above zero, that is, is matched by an outstanding \<^verbatim>\<open>hold\<close>.
\<close>

fun releasesMatched :: "PinnedBlocks \<Rightarrow> event list \<Rightarrow> bool" where
  "releasesMatched a [] = True"
| "releasesMatched a (e # es) =
     ((case e of
         BlockUsage (Release h) \<Rightarrow>
           (case blocks a h of None \<Rightarrow> True | Some b \<Rightarrow> 0 < refCount b)
       | _ \<Rightarrow> True)
      \<and> (case reducer a e of Inl _ \<Rightarrow> True | Inr a' \<Rightarrow> releasesMatched a' es))"

definition nonNegative :: "(string \<rightharpoonup> PinnedBlock) \<Rightarrow> bool" where
  "nonNegative bs \<longleftrightarrow> (\<forall>k b. bs k = Some b \<longrightarrow> 0 \<le> refCount b)"

section \<open>The reducer: basic facts\<close>

lemma unpinOne_dom: "dom (unpinOne bs h) = dom bs - {h}"
  by (auto simp: unpinOne_def split: option.splits if_splits)

lemma unpin_dom: "dom (foldl unpinOne bs hs) = dom bs - set hs"
  by (induction hs arbitrary: bs) (auto simp: unpinOne_dom)

lemma unpinOne_keysOk: "keysOk bs \<Longrightarrow> keysOk (unpinOne bs h)"
  by (auto simp: keysOk_def unpinOne_def split: option.splits if_splits)

lemma unpin_keysOk: "keysOk bs \<Longrightarrow> keysOk (foldl unpinOne bs hs)"
  by (induction hs arbitrary: bs) (auto simp: unpinOne_keysOk)

lemma reducer_keysOk:
  assumes "keysOk (blocks a)" and "reducer a e = Inr a'"
  shows "keysOk (blocks a')"
proof (cases e)
  case (Follow f)
  with assms show ?thesis
    by (cases f) (auto simp: keysOk_def Let_def split: option.splits if_splits)
next
  case (BlockUsage u)
  with assms show ?thesis
    by (auto simp: keysOk_def split: option.splits if_splits)
next
  case (Unpin hs)
  with assms show ?thesis by (auto simp: unpin_keysOk)
qed

lemma reducer_dom_mono:
  assumes "reducer a e = Inr a'" and "\<And>hs. e \<noteq> Unpin hs"
  shows "dom (blocks a) \<subseteq> dom (blocks a')"
proof (cases e)
  case (Follow f)
  with assms(1) show ?thesis
    by (cases f) (auto simp: Let_def split: option.splits if_splits)
next
  case (BlockUsage u)
  with assms(1) show ?thesis by (auto split: option.splits)
next
  case (Unpin hs)
  with assms(2) [of hs] show ?thesis by simp
qed

section \<open>The end-to-end scenario\<close>

text \<open>
  C9. From the seed, initialized(A, number 0), newBlock(parent A, hash B, no new runtime),
  bestBlockChanged(B) and finalized([B]) give a snapshot with finalized = best = B, with
  exactly A and B in blocks, A's refCount 0, B's number one above A's, and B's runtime id
  equal to A's. A and B are two different hashes.
\<close>

theorem scan_end_to_end:
  assumes "A \<noteq> B"
  shows "\<exists>s nodeA nodeB.
           scan seed [Follow (Initialized A P 0), Follow (NewBlock A B False),
                      Follow (BestBlockChanged B), Follow (Finalized [B])] = Inr s
         \<and> finalized s = B \<and> best s = B
         \<and> dom (blocks s) = {A, B}
         \<and> blocks s A = Some nodeA \<and> blocks s B = Some nodeB
         \<and> refCount nodeA = 0
         \<and> number nodeA = 0
         \<and> number nodeB = number nodeA + 1
         \<and> runtime nodeB = runtime nodeA"
  using assms by (auto simp: seed_def getRuntime_def addBlock_def)

theorem scan_end_to_end_witness:
  "''A'' \<noteq> ''B'' \<and>
   (\<exists>s nodeA nodeB.
     scan seed [Follow (Initialized ''A'' ''P'' 0), Follow (NewBlock ''A'' ''B'' False),
                Follow (BestBlockChanged ''B''), Follow (Finalized [''B''])] = Inr s
   \<and> finalized s = ''B'' \<and> best s = ''B''
   \<and> dom (blocks s) = {''A'', ''B''}
   \<and> blocks s ''A'' = Some nodeA \<and> blocks s ''B'' = Some nodeB
   \<and> refCount nodeA = 0
   \<and> number nodeA = 0
   \<and> number nodeB = number nodeA + 1
   \<and> runtime nodeB = runtime nodeA)"
  using scan_end_to_end [of "''A''" "''B''" "''P''"] by simp

section \<open>Releases\<close>

lemma unpinOne_nonNegative: "nonNegative bs \<Longrightarrow> nonNegative (unpinOne bs h)"
  by (auto simp: nonNegative_def unpinOne_def split: option.splits if_splits)

lemma unpin_nonNegative: "nonNegative bs \<Longrightarrow> nonNegative (foldl unpinOne bs hs)"
  by (induction hs arbitrary: bs) (auto simp: unpinOne_nonNegative)

lemma reducer_nonNegative:
  assumes "nonNegative (blocks a)" and "reducer a e = Inr a'" and "releasesMatched a [e]"
  shows "nonNegative (blocks a')"
proof (cases e)
  case (Follow f)
  with assms show ?thesis
    by (cases f) (auto simp: nonNegative_def Let_def split: option.splits if_splits)
next
  case (BlockUsage u)
  with assms show ?thesis
    by (cases u)
      (auto simp: nonNegative_def usageHash_def usageDelta_def split: option.splits if_splits)
next
  case (Unpin hs)
  with assms show ?thesis by (auto simp: unpin_nonNegative)
qed

lemma scan_nonNegative:
  "nonNegative (blocks a) \<Longrightarrow> releasesMatched a es \<Longrightarrow> scan a es = Inr a'
   \<Longrightarrow> nonNegative (blocks a')"
proof (induction es arbitrary: a)
  case Nil
  then show ?case by simp
next
  case (Cons e es)
  from Cons.prems(3) obtain a1 where r: "reducer a e = Inr a1" and s: "scan a1 es = Inr a'"
    by (auto split: sum.splits)
  from Cons.prems(2) r have m1: "releasesMatched a [e]" and m2: "releasesMatched a1 es"
    by (auto split: sum.splits)
  from reducer_nonNegative [OF Cons.prems(1) r m1] have "nonNegative (blocks a1)" .
  from Cons.IH [OF this m2 s] show ?case .
qed

text \<open>
  C1, as the code has it. On every snapshot the fold accepts a release of a tracked
  block: it lowers refCount by one whatever its value, so the snapshot changes and a
  release at refCount 0 leaves -1. What keeps refCount from going below zero is the
  sequence of events: when every release finds its block's refCount above zero, no
  tracked block ever has a negative refCount.
\<close>

theorem refCount_nonNegative_if_releases_matched:
  assumes "scan seed es = Inr s" and "releasesMatched seed es" and "blocks s h = Some b"
    and "blocks a k = Some c"
  shows "0 \<le> refCount b
       \<and> reducer a (BlockUsage (Release k)) =
           Inr (a\<lparr>blocks := (blocks a)(k \<mapsto> c\<lparr>refCount := refCount c - 1\<rparr>)\<rparr>)"
proof -
  have "nonNegative (blocks seed)" by (simp add: nonNegative_def seed_def)
  from scan_nonNegative [OF this assms(2,1)] assms(3) have "0 \<le> refCount b"
    by (auto simp: nonNegative_def)
  with assms(4) show ?thesis by (simp add: usageHash_def usageDelta_def)
qed

theorem refCount_nonNegative_if_releases_matched_witness:
  "\<exists>s b. scan seed [Follow (Initialized ''A'' ''P'' 0), BlockUsage (Hold ''A''),
                     BlockUsage (Release ''A'')] = Inr s
     \<and> releasesMatched seed [Follow (Initialized ''A'' ''P'' 0), BlockUsage (Hold ''A''),
                             BlockUsage (Release ''A'')]
     \<and> blocks s ''A'' = Some b
     \<and> refCount b = 0
     \<and> reducer s (BlockUsage (Release ''A'')) =
         Inr (s\<lparr>blocks := (blocks s)(''A'' \<mapsto> b\<lparr>refCount := refCount b - 1\<rparr>)\<rparr>)"
proof -
  let ?es = "[Follow (Initialized ''A'' ''P'' 0), BlockUsage (Hold ''A''),
              BlockUsage (Release ''A'')]"
  have "\<exists>s b. scan seed ?es = Inr s \<and> blocks s ''A'' = Some b \<and> refCount b = 0"
    by (simp add: seed_def getRuntime_def usageHash_def usageDelta_def)
  then obtain s b where s: "scan seed ?es = Inr s" and b: "blocks s ''A'' = Some b"
    and z: "refCount b = 0" by (elim exE conjE)
  have m: "releasesMatched seed ?es"
    by (simp add: seed_def getRuntime_def usageHash_def usageDelta_def)
  from refCount_nonNegative_if_releases_matched [OF s m b b]
  have r: "reducer s (BlockUsage (Release ''A'')) =
             Inr (s\<lparr>blocks := (blocks s)(''A'' \<mapsto> b\<lparr>refCount := refCount b - 1\<rparr>)\<rparr>)"
    by (rule conjunct2)
  show ?thesis
    by (rule exI [of _ s], rule exI [of _ b]) (intro conjI s m b z r)
qed

text \<open>
  C1, as the claim states it, fails: a release of the block A at refCount 0 is folded
  without any error and leaves A with refCount -1.
\<close>

theorem release_below_zero_accepted:
  "scan seed [Follow (Initialized ''A'' ''P'' 0), BlockUsage (Release ''A'')] =
     Inr \<lparr>best = ''A'', finalized = ''A'',
          runtimes = [''A'' \<mapsto> \<lparr>usages = [''A'']\<rparr>],
          blocks = [''A'' \<mapsto> \<lparr>hash = ''A'', number = 0, parent = ''P'', children = {},
                                runtime = ''A'', refCount = - 1\<rparr>],
          finalizedRuntime = Some \<lparr>usages = [''A'']\<rparr>\<rparr>"
  by (simp add: seed_def getRuntime_def usageHash_def usageDelta_def)

section \<open>Unpin twice\<close>

lemma unpinOne_absent: "bs h = None \<Longrightarrow> unpinOne bs h = bs"
  by (simp add: unpinOne_def)

lemma unpin_absent: "set hs \<inter> dom bs = {} \<Longrightarrow> foldl unpinOne bs hs = bs"
proof (induction hs arbitrary: bs)
  case Nil
  then show ?case by simp
next
  case (Cons h hs)
  from Cons.prems have "bs h = None" by auto
  then have "unpinOne bs h = bs" by (rule unpinOne_absent)
  with Cons show ?case by simp
qed

lemma unpin_twice: "foldl unpinOne (foldl unpinOne bs hs) hs = foldl unpinOne bs hs"
  by (rule unpin_absent) (auto simp: unpin_dom)

lemma deleteBlocks_twice: "deleteBlocks hs (deleteBlocks hs r) = deleteBlocks hs r"
  by (simp add: deleteBlocks_def)

lemma unpinRuntimes_twice: "unpinRuntimes hs (unpinRuntimes hs rs) = unpinRuntimes hs rs"
  by (rule ext) (simp add: unpinRuntimes_def deleteBlocks_twice split: option.splits)

text \<open>
  C3. Unpin is idempotent: for every snapshot and every hash h, folding unpin([h]) never
  fails, and folding it a second time gives back the very snapshot of the first fold:
  the same pointers, blocks, children sets, runtimes and usage counters.
\<close>

theorem unpin_idempotent:
  "\<exists>s1. reducer s (Unpin [h]) = Inr s1 \<and> reducer s1 (Unpin [h]) = Inr s1"
  using unpin_twice [of "blocks s" "[h]"] unpinRuntimes_twice [of "[h]" "runtimes s"]
  by simp

section \<open>Initialized twice\<close>

text \<open>
  C5, as the code has it. Folding an initialized event never fails, whatever the store
  holds: best and finalized move to the event's hash, the node and the runtime under
  that hash are written afresh, and every other block and runtime stays.
\<close>

theorem initialized_never_fails:
  "\<exists>s'. step s (FromFollow (Initialized h p n)) = Some (Inr s')
       \<and> published s'
       \<and> best (acc s') = h \<and> finalized (acc s') = h
       \<and> blocks (acc s') = (blocks (acc s))(h \<mapsto>
            \<lparr>hash = h, number = n, parent = p, children = {}, runtime = h, refCount = 0\<rparr>)
       \<and> runtimes (acc s') = (runtimes (acc s))(h \<mapsto> getRuntime h)
       \<and> finalizedRuntime (acc s') = Some (getRuntime h)"
  by (simp add: foldEvent_def)

text \<open>
  C5, as the claim states it, fails: a second initialized event, for the hash C, is folded
  into a store that already tracks A and B; the fold succeeds and keeps both.
\<close>

theorem initialized_twice_accepted:
  "scan seed [Follow (Initialized ''A'' ''P'' 0), Follow (NewBlock ''A'' ''B'' False),
              Follow (Initialized ''C'' ''Q'' 7)] =
     Inr \<lparr>best = ''C'', finalized = ''C'',
          runtimes = [''A'' \<mapsto> \<lparr>usages = [''A'', ''B'']\<rparr>, ''C'' \<mapsto> \<lparr>usages = [''C'']\<rparr>],
          blocks = [''A'' \<mapsto> \<lparr>hash = ''A'', number = 0, parent = ''P'', children = {''B''},
                                runtime = ''A'', refCount = 0\<rparr>,
                    ''B'' \<mapsto> \<lparr>hash = ''B'', number = 1, parent = ''A'', children = {},
                                runtime = ''A'', refCount = 0\<rparr>,
                    ''C'' \<mapsto> \<lparr>hash = ''C'', number = 7, parent = ''Q'', children = {},
                                runtime = ''C'', refCount = 0\<rparr>],
          finalizedRuntime = Some \<lparr>usages = [''C'']\<rparr>\<rparr>"
  by (simp add: seed_def getRuntime_def addBlock_def)

section \<open>The cleaner's walk\<close>

lemma ancestor_trans: "ancestor bs k a \<Longrightarrow> ancestor bs a c \<Longrightarrow> ancestor bs k c"
  by (induction rule: ancestor.induct) (auto intro: ancestor.intros)

lemma ancestor_first:
  assumes "ancestor bs k a" and "bs k = Some b"
  shows "bs (parent b) \<noteq> None \<and> (a = parent b \<or> ancestor bs (parent b) a)"
  using assms by (cases rule: ancestor.cases) auto

lemma ancestor_tracked: "ancestor bs k a \<Longrightarrow> bs a \<noteq> None"
  by (induction rule: ancestor.induct) auto

lemma ancestors_subset_dom: "ancestors bs k \<subseteq> dom bs"
  using ancestor_tracked by (auto simp: ancestors_def)

lemma ancestors_step:
  assumes "bs k = Some b" and "bs (parent b) = Some p"
  shows "ancestors bs k = insert (parent b) (ancestors bs (parent b))"
  using assms by (auto simp: ancestors_def dest: ancestor_first intro: ancestor.intros)

lemma ancestors_root:
  assumes "bs k = Some b" and "bs (parent b) = None"
  shows "ancestors bs k = {}"
  using assms by (auto simp: ancestors_def dest: ancestor_first)

lemma set_setAdd: "set (setAdd x xs) = insert x (set xs)"
  by (auto simp: setAdd_def)

text \<open>
  When the walk returns, it has added exactly the zero-refCount ancestors of the block it
  started from.
\<close>

lemma walk_collects_aux:
  assumes "walk bs0 cur0 res0 = Some r0"
  shows "\<forall>k. keysOk bs0 \<longrightarrow> bs0 k = Some cur0 \<longrightarrow> set r0 = set res0 \<union> zeroAncestors bs0 k"
proof (rule walk.raw_induct
    [where P = "\<lambda>bs cur res r. \<forall>k. keysOk bs \<longrightarrow> bs k = Some cur \<longrightarrow>
                  set r = set res \<union> zeroAncestors bs k", OF _ assms])
  fix w :: "(string \<rightharpoonup> PinnedBlock) \<Rightarrow> PinnedBlock \<Rightarrow> string list \<Rightarrow> string list option"
    and bs :: "string \<rightharpoonup> PinnedBlock" and cur :: PinnedBlock and res r :: "string list"
  assume IH: "\<And>bs cur res r. w bs cur res = Some r \<Longrightarrow>
                \<forall>k. keysOk bs \<longrightarrow> bs k = Some cur \<longrightarrow> set r = set res \<union> zeroAncestors bs k"
    and body: "(case bs (parent cur) of None \<Rightarrow> Some res
                | Some p \<Rightarrow> w bs p (if refCount p = 0 then setAdd (hash p) res else res)) = Some r"
  show "\<forall>k. keysOk bs \<longrightarrow> bs k = Some cur \<longrightarrow> set r = set res \<union> zeroAncestors bs k"
  proof (intro allI impI)
    fix k
    assume ok: "keysOk bs" and k: "bs k = Some cur"
    show "set r = set res \<union> zeroAncestors bs k"
    proof (cases "bs (parent cur)")
      case None
      with k have "zeroAncestors bs k = {}"
        by (auto simp: zeroAncestors_def dest: ancestor_first)
      with None body show ?thesis by simp
    next
      case (Some p)
      let ?res = "if refCount p = 0 then setAdd (hash p) res else res"
      from Some body have w: "w bs p ?res = Some r" by simp
      from IH [OF w] ok Some
      have r: "set r = set ?res \<union> zeroAncestors bs (parent cur)" by blast
      from ok Some have hp: "hash p = parent cur" by (simp add: keysOk_def)
      have "zeroAncestors bs k =
              (if refCount p = 0 then {parent cur} else {}) \<union> zeroAncestors bs (parent cur)"
        using Some k
        by (auto simp: zeroAncestors_def dest: ancestor_first intro: ancestor.intros)
      with r hp show ?thesis by (auto simp: set_setAdd)
    qed
  qed
qed

lemma walk_collects:
  assumes "walk bs cur res = Some r" and "keysOk bs" and "bs k = Some cur"
  shows "set r = set res \<union> zeroAncestors bs k"
  using walk_collects_aux [OF assms(1)] assms(2,3) by blast

text \<open>A walk that returns has not gone round a cycle of parent links.\<close>

lemma walk_acyclic_aux:
  assumes "walk bs0 cur0 res0 = Some r0"
  shows "\<forall>k. bs0 k = Some cur0 \<longrightarrow> \<not> ancestor bs0 k k"
proof (rule walk.raw_induct
    [where P = "\<lambda>bs cur res r. \<forall>k. bs k = Some cur \<longrightarrow> \<not> ancestor bs k k", OF _ assms])
  fix w :: "(string \<rightharpoonup> PinnedBlock) \<Rightarrow> PinnedBlock \<Rightarrow> string list \<Rightarrow> string list option"
    and bs :: "string \<rightharpoonup> PinnedBlock" and cur :: PinnedBlock and res r :: "string list"
  assume IH: "\<And>bs cur res r. w bs cur res = Some r \<Longrightarrow>
                \<forall>k. bs k = Some cur \<longrightarrow> \<not> ancestor bs k k"
    and body: "(case bs (parent cur) of None \<Rightarrow> Some res
                | Some p \<Rightarrow> w bs p (if refCount p = 0 then setAdd (hash p) res else res)) = Some r"
  show "\<forall>k. bs k = Some cur \<longrightarrow> \<not> ancestor bs k k"
  proof (intro allI impI)
    fix k
    assume k: "bs k = Some cur"
    show "\<not> ancestor bs k k"
    proof (cases "bs (parent cur)")
      case None
      with k show ?thesis by (auto dest: ancestor_first)
    next
      case (Some p)
      let ?res = "if refCount p = 0 then setAdd (hash p) res else res"
      from Some body have w: "w bs p ?res = Some r" by simp
      from IH [OF w] Some have n: "\<not> ancestor bs (parent cur) (parent cur)" by blast
      show ?thesis
      proof
        assume a: "ancestor bs k k"
        have st: "ancestor bs k (parent cur)"
          using k Some by (auto intro: ancestor.intros)
        from ancestor_first [OF a k]
        have "k = parent cur \<or> ancestor bs (parent cur) k" by simp
        then have "ancestor bs (parent cur) (parent cur)"
          using a st by (auto intro: ancestor_trans)
        with n show False by simp
      qed
    qed
  qed
qed

lemma walk_acyclic:
  assumes "walk bs cur res = Some r" and "bs k = Some cur"
  shows "\<not> ancestor bs k k"
  using walk_acyclic_aux [OF assms(1)] assms(2) by blast

lemma collect_sound:
  assumes "keysOk (blocks a)" and "cleanerCollect a = Some (Inr current)"
  shows "set current = zeroAncestors (blocks a) (finalized a)"
    and "\<not> ancestor (blocks a) (finalized a) (finalized a)"
proof -
  from assms(2) obtain cur where
    f: "blocks a (finalized a) = Some cur" and w: "walk (blocks a) cur [] = Some current"
    by (auto simp: cleanerCollect_def split: option.splits)
  from walk_collects [OF w assms(1) f]
  show "set current = zeroAncestors (blocks a) (finalized a)" by simp
  from walk_acyclic [OF w f]
  show "\<not> ancestor (blocks a) (finalized a) (finalized a)" .
qed

text \<open>
  On a finite map in which no ancestor of the starting block is its own ancestor, the
  walk returns: each step leaves strictly fewer ancestors above.
\<close>

lemma walk_terminates:
  assumes fin: "finite (dom bs)"
  shows "bs k = Some cur \<Longrightarrow> \<forall>x \<in> ancestors bs k. \<not> ancestor bs x x
         \<Longrightarrow> \<exists>r. walk bs cur res = Some r"
proof (induction "card (ancestors bs k)" arbitrary: k cur res rule: less_induct)
  case less
  show ?case
  proof (cases "bs (parent cur)")
    case None
    then show ?thesis by (simp add: walk.simps)
  next
    case (Some p)
    let ?k = "parent cur"
    have st: "ancestors bs k = insert ?k (ancestors bs ?k)"
      using less.prems(1) Some by (rule ancestors_step)
    have f: "finite (ancestors bs ?k)"
      using fin ancestors_subset_dom by (rule rev_finite_subset)
    from st less.prems(2) have "\<not> ancestor bs ?k ?k" by simp
    then have "?k \<notin> ancestors bs ?k" by (simp add: ancestors_def)
    with st f have c: "card (ancestors bs ?k) < card (ancestors bs k)" by simp
    from st less.prems(2) have a: "\<forall>x \<in> ancestors bs ?k. \<not> ancestor bs x x" by simp
    from less.hyps [OF c Some a]
    obtain r where "walk bs p (if refCount p = 0 then setAdd (hash p) res else res) = Some r"
      by blast
    with Some show ?thesis by (subst walk.simps) simp
  qed
qed

text \<open>
  C8, as the code has it. On every snapshot whose finalized block is tracked and above
  which the parent links do not run in a cycle, the walk returns a set and raises no
  error; it stops at the first ancestor that is absent from blocks. The blocks map is
  finite, as every \<^verbatim>\<open>Map\<close> is.
\<close>

theorem cleaner_walk_returns:
  assumes "finite (dom (blocks a))"
    and "blocks a (finalized a) \<noteq> None"
    and "\<forall>x \<in> ancestors (blocks a) (finalized a). \<not> ancestor (blocks a) x x"
  shows "\<exists>current. cleanerCollect a = Some (Inr current)"
proof -
  from assms(2) obtain cur where c: "blocks a (finalized a) = Some cur" by auto
  from walk_terminates [OF assms(1) c assms(3)]
  obtain r where "walk (blocks a) cur [] = Some r" by blast
  with c show ?thesis by (simp add: cleanerCollect_def)
qed

theorem cleaner_walk_returns_witness:
  "\<exists>a. scan seed [Follow (Initialized ''A'' ''P'' 0), Follow (NewBlock ''A'' ''B'' False),
                   Follow (Finalized [''B''])] = Inr a
      \<and> finite (dom (blocks a))
      \<and> blocks a (finalized a) \<noteq> None
      \<and> ancestors (blocks a) (finalized a) = {''A''}
      \<and> ancestors (blocks a) ''A'' = {}
      \<and> (\<exists>current. cleanerCollect a = Some (Inr current))"
proof -
  let ?es = "[Follow (Initialized ''A'' ''P'' 0), Follow (NewBlock ''A'' ''B'' False),
              Follow (Finalized [''B''])]"
  have "\<exists>a nodeA nodeB. scan seed ?es = Inr a \<and> finalized a = ''B''
          \<and> dom (blocks a) = {''A'', ''B''}
          \<and> blocks a ''B'' = Some nodeB \<and> parent nodeB = ''A''
          \<and> blocks a ''A'' = Some nodeA \<and> parent nodeA = ''P'' \<and> blocks a ''P'' = None"
    by (auto simp: seed_def getRuntime_def addBlock_def)
  then obtain a nodeA nodeB where s: "scan seed ?es = Inr a" and f: "finalized a = ''B''"
    and d: "dom (blocks a) = {''A'', ''B''}"
    and b: "blocks a ''B'' = Some nodeB" "parent nodeB = ''A''"
    and a: "blocks a ''A'' = Some nodeA" "parent nodeA = ''P''" and p: "blocks a ''P'' = None"
    by (elim exE conjE)
  from a p have ra: "ancestors (blocks a) ''A'' = {}"
    by (simp add: ancestors_root)
  have "ancestors (blocks a) ''B'' = insert (parent nodeB) (ancestors (blocks a) (parent nodeB))"
    using b(1) a(1) b(2) by (intro ancestors_step) auto
  with b(2) ra have rb: "ancestors (blocks a) ''B'' = {''A''}"
    by simp
  have h1: "finite (dom (blocks a))" using d by simp
  have h2: "blocks a (finalized a) \<noteq> None" using f b by simp
  have h3: "\<forall>x \<in> ancestors (blocks a) (finalized a). \<not> ancestor (blocks a) x x"
    using f ra rb by (simp add: ancestors_def)
  from rb f have rf: "ancestors (blocks a) (finalized a) = {''A''}" by simp
  from cleaner_walk_returns [OF h1 h2 h3]
  have c: "\<exists>current. cleanerCollect a = Some (Inr current)" .
  show ?thesis
    by (rule exI [of _ a]) (intro conjI s h1 h2 rf ra c)
qed

text \<open>On a block that is its own parent the walk never returns.\<close>

lemma walk_self_parent:
  assumes "bs0 (parent cur0) = Some cur0"
  shows "walk bs0 cur0 res0 = None"
proof (rule ccontr)
  assume "walk bs0 cur0 res0 \<noteq> None"
  then obtain r0 where w0: "walk bs0 cur0 res0 = Some r0" by auto
  have "bs0 (parent cur0) \<noteq> Some cur0"
  proof (rule walk.raw_induct
      [where P = "\<lambda>bs cur res r. bs (parent cur) \<noteq> Some cur", OF _ w0])
    fix w :: "(string \<rightharpoonup> PinnedBlock) \<Rightarrow> PinnedBlock \<Rightarrow> string list \<Rightarrow> string list option"
      and bs :: "string \<rightharpoonup> PinnedBlock" and cur :: PinnedBlock and res r :: "string list"
    assume IH: "\<And>bs cur res r. w bs cur res = Some r \<Longrightarrow> bs (parent cur) \<noteq> Some cur"
      and body: "(case bs (parent cur) of None \<Rightarrow> Some res
                  | Some p \<Rightarrow> w bs p (if refCount p = 0 then setAdd (hash p) res else res)) = Some r"
    show "bs (parent cur) \<noteq> Some cur"
    proof
      assume s: "bs (parent cur) = Some cur"
      with body have "w bs cur (if refCount cur = 0 then setAdd (hash cur) res else res) = Some r"
        by simp
      from IH [OF this] s show False by simp
    qed
  qed
  with assms show False by simp
qed

text \<open>
  C8, as the claim states it, fails. After a single bestBlockChanged event the published
  snapshot has no finalized block in blocks, and the walk of the next tick raises a
  TypeError, which ends the stream. And after an initialized event whose header names
  the block as its own parent, the walk of the next tick never returns.
\<close>

theorem cleaner_walk_raises:
  "run start [FromFollow (BestBlockChanged ''X''), Tick] = Some (Inl TypeError)
   \<and> run start [FromFollow (Initialized ''A'' ''A'' 0), Tick] = None"
proof -
  have "walk [''A'' \<mapsto> \<lparr>hash = ''A'', number = 0, parent = ''A'', children = {},
                           runtime = ''A'', refCount = 0\<rparr>]
          \<lparr>hash = ''A'', number = 0, parent = ''A'', children = {}, runtime = ''A'',
            refCount = 0\<rparr> [] = None"
    by (rule walk_self_parent) simp
  then show ?thesis
    by (simp add: start_def seed_def foldEvent_def tick_def cleanerCollect_def getRuntime_def)
qed

section \<open>The merged stream: invariants\<close>

lemma foldEvent_Inr:
  assumes "foldEvent s e = Inr s'"
  shows "reducer (acc s) e = Inr (acc s') \<and> previous s' = previous s
         \<and> unpinned s' = unpinned s \<and> published s'"
  using assms by (auto simp: foldEvent_def split: sum.splits)

lemma tick_keysOk:
  assumes "keysOk (blocks (acc s))" and "tick s = Some (Inr s')"
  shows "keysOk (blocks (acc s'))"
  using assms
  by (auto simp: tick_def foldEvent_def Let_def unpin_keysOk
      split: if_splits option.splits sum.splits)

lemma step_keysOk:
  assumes "keysOk (blocks (acc s))" and "step s i = Some (Inr s')"
  shows "keysOk (blocks (acc s'))"
proof (cases i)
  case (FromFollow f)
  with assms(2) have "foldEvent s (Follow f) = Inr s'" by simp
  then have "reducer (acc s) (Follow f) = Inr (acc s')"
    by (rule foldEvent_Inr [THEN conjunct1])
  with assms(1) show ?thesis by (rule reducer_keysOk)
next
  case (FromBlockUsage u)
  with assms(2) have "foldEvent s (BlockUsage u) = Inr s'" by simp
  then have "reducer (acc s) (BlockUsage u) = Inr (acc s')"
    by (rule foldEvent_Inr [THEN conjunct1])
  with assms(1) show ?thesis by (rule reducer_keysOk)
next
  case Tick
  with assms show ?thesis by (auto dest: tick_keysOk)
qed

lemma run_keysOk:
  "keysOk (blocks (acc s)) \<Longrightarrow> run s ins = Some (Inr s') \<Longrightarrow> keysOk (blocks (acc s'))"
proof (induction ins arbitrary: s)
  case Nil
  then show ?case by simp
next
  case (Cons i ins)
  then show ?case
    by (auto split: option.splits sum.splits dest: step_keysOk)
qed

lemma reachable_keysOk: "run start ins = Some (Inr s) \<Longrightarrow> keysOk (blocks (acc s))"
  by (rule run_keysOk [of start]) (auto simp: start_def seed_def keysOk_def)

lemma set_confirmed: "set (confirmed pv current) = set pv \<inter> set current"
  by (auto simp: confirmed_def)

lemma tick_effect:
  assumes "tick s = Some (Inr s')"
  shows "(acc s' = acc s \<and> unpinned s' = unpinned s) \<or>
         (\<exists>pv current. published s \<and> cleanerCollect (acc s) = Some (Inr current)
            \<and> previous s = Some pv \<and> confirmed pv current \<noteq> []
            \<and> blocks (acc s') = foldl unpinOne (blocks (acc s)) (confirmed pv current)
            \<and> unpinned s' = unpinned s @ [confirmed pv current])"
  using assms
  by (auto simp: tick_def foldEvent_def Let_def split: if_splits option.splits sum.splits)

text \<open>
  A step of the stream either keeps every tracked block and calls \<^verbatim>\<open>onUnpin\<close> with
  nothing, or it is a tick that unpins the confirmed set.
\<close>

lemma step_effect:
  assumes "step s i = Some (Inr s')"
  shows "(dom (blocks (acc s)) \<subseteq> dom (blocks (acc s')) \<and> unpinned s' = unpinned s) \<or>
         (\<exists>pv current. i = Tick \<and> published s \<and> cleanerCollect (acc s) = Some (Inr current)
            \<and> previous s = Some pv \<and> confirmed pv current \<noteq> []
            \<and> blocks (acc s') = foldl unpinOne (blocks (acc s)) (confirmed pv current)
            \<and> unpinned s' = unpinned s @ [confirmed pv current])"
proof (cases i)
  case (FromFollow f)
  with assms have "foldEvent s (Follow f) = Inr s'" by simp
  from foldEvent_Inr [OF this] reducer_dom_mono [of "acc s" "Follow f" "acc s'"]
  show ?thesis by simp
next
  case (FromBlockUsage u)
  with assms have "foldEvent s (BlockUsage u) = Inr s'" by simp
  from foldEvent_Inr [OF this] reducer_dom_mono [of "acc s" "BlockUsage u" "acc s'"]
  show ?thesis by simp
next
  case Tick
  with assms have "tick s = Some (Inr s')" by simp
  from tick_effect [OF this] Tick show ?thesis by auto
qed

text \<open>The equations that evaluate a run of the stream on concrete events.\<close>

lemmas evals = start_def seed_def foldEvent_def tick_def cleanerCollect_def walk.simps
  setAdd_def confirmed_def emitted_def getRuntime_def addBlock_def usageHash_def usageDelta_def
  unpinOne_def unpinRuntimes_def deleteBlocks_def usagesCount_def Let_def

section \<open>What the cleaner unpins\<close>

text \<open>
  C6, as the code has it. In every state the stream reaches, no step removes the
  finalized block or a block on the path that descends from finalized to best, that is, a
  block that is best or an ancestor of best and has finalized among its own ancestors:
  such a block is in no set the cleaner emits, and it is still in blocks after the step,
  whether the step folds an event from outside or is a tick that folds an unpin event.
  Nothing is said of the blocks between the two when best does not descend from
  finalized.
\<close>

theorem removal_spares_finalized_path:
  assumes "run start ins = Some (Inr s)"
    and "step s i = Some (Inr s')"
    and "x \<in> dom (blocks (acc s))"
    and "x = finalized (acc s) \<or> onPath (blocks (acc s)) (finalized (acc s)) (best (acc s)) x"
  shows "x \<in> dom (blocks (acc s')) \<and> x \<notin> set (emitted s s')"
proof -
  let ?bs = "blocks (acc s)" and ?fin = "finalized (acc s)"
  have ok: "keysOk ?bs" using assms(1) by (rule reachable_keysOk)
  from step_effect [OF assms(2)] show ?thesis
  proof (elim disjE exE conjE)
    assume "dom ?bs \<subseteq> dom (blocks (acc s'))" and "unpinned s' = unpinned s"
    with assms(3) show ?thesis by (auto simp: emitted_def)
  next
    fix pv current
    assume c: "cleanerCollect (acc s) = Some (Inr current)"
      and b: "blocks (acc s') = foldl unpinOne ?bs (confirmed pv current)"
      and u: "unpinned s' = unpinned s @ [confirmed pv current]"
    have "x \<notin> set current"
    proof
      assume "x \<in> set current"
      with collect_sound(1) [OF ok c] have a: "ancestor ?bs ?fin x"
        by (simp add: zeroAncestors_def)
      from assms(4) a have "ancestor ?bs ?fin ?fin"
        by (auto simp: onPath_def intro: ancestor_trans)
      with collect_sound(2) [OF ok c] show False by simp
    qed
    then have "x \<notin> set (confirmed pv current)" by (simp add: set_confirmed)
    with assms(3) b u show ?thesis by (simp add: unpin_dom emitted_def)
  qed
qed

theorem removal_spares_finalized_path_witness:
  "\<exists>s s'. run start [FromFollow (Initialized ''A'' ''P'' 0), FromFollow (NewBlock ''A'' ''B'' False),
                      FromFollow (NewBlock ''B'' ''C'' False), FromFollow (BestBlockChanged ''C''),
                      FromFollow (Finalized [''B'']), Tick] = Some (Inr s)
     \<and> step s Tick = Some (Inr s')
     \<and> ''C'' \<in> dom (blocks (acc s))
     \<and> onPath (blocks (acc s)) (finalized (acc s)) (best (acc s)) ''C''
     \<and> emitted s s' = [''A'']
     \<and> ''C'' \<in> dom (blocks (acc s')) \<and> ''C'' \<notin> set (emitted s s')"
proof -
  let ?ins = "[FromFollow (Initialized ''A'' ''P'' 0), FromFollow (NewBlock ''A'' ''B'' False),
               FromFollow (NewBlock ''B'' ''C'' False), FromFollow (BestBlockChanged ''C''),
               FromFollow (Finalized [''B'']), Tick]"
  have "\<exists>s s' nodeB nodeC. run start ?ins = Some (Inr s) \<and> step s Tick = Some (Inr s')
          \<and> emitted s s' = [''A'']
          \<and> finalized (acc s) = ''B'' \<and> best (acc s) = ''C''
          \<and> blocks (acc s) ''C'' = Some nodeC \<and> parent nodeC = ''B''
          \<and> blocks (acc s) ''B'' = Some nodeB"
    by (simp add: evals)
  then obtain s s' nodeB nodeC where r: "run start ?ins = Some (Inr s)"
    and t: "step s Tick = Some (Inr s')" and e: "emitted s s' = [''A'']"
    and f: "finalized (acc s) = ''B''" and bst: "best (acc s) = ''C''"
    and c: "blocks (acc s) ''C'' = Some nodeC" "parent nodeC = ''B''"
    and b: "blocks (acc s) ''B'' = Some nodeB"
    by (elim exE conjE)
  from c(1) have d: "''C'' \<in> dom (blocks (acc s))" by (rule domI)
  have "ancestor (blocks (acc s)) ''C'' (parent nodeC)"
    using c(1) b c(2) by (intro ancestor.parent) auto
  with c(2) f bst have p: "onPath (blocks (acc s)) (finalized (acc s)) (best (acc s)) ''C''"
    by (simp add: onPath_def)
  from removal_spares_finalized_path [OF r t d disjI2, OF p]
  have k: "''C'' \<in> dom (blocks (acc s'))" and n: "''C'' \<notin> set (emitted s s')" by simp_all
  show ?thesis
    by (rule exI [of _ s], rule exI [of _ s']) (intro conjI r t d p e k n)
qed

text \<open>
  C6, as the claim states it, fails. After initialized(A), newBlock(parent A, hash B),
  newBlock(parent B, hash C) and finalized([B, C]), with no bestBlockChanged, best is
  still A and finalized is C. The first tick removes nothing; the second tick emits B
  and A and unpins both: B, which lies strictly between finalized and best, and best
  itself. Only C stays in blocks.
\<close>

theorem removal_hits_stale_best_path:
  "map_option (map_sum id (\<lambda>s. (best (acc s), finalized (acc s), dom (blocks (acc s)), unpinned s)))
     (run start [FromFollow (Initialized ''A'' ''P'' 0), FromFollow (NewBlock ''A'' ''B'' False),
                 FromFollow (NewBlock ''B'' ''C'' False), FromFollow (Finalized [''B'', ''C'']),
                 Tick])
     = Some (Inr (''A'', ''C'', {''C'', ''B'', ''A''}, []))
   \<and> map_option (map_sum id (\<lambda>s. (best (acc s), finalized (acc s), dom (blocks (acc s)), unpinned s)))
     (run start [FromFollow (Initialized ''A'' ''P'' 0), FromFollow (NewBlock ''A'' ''B'' False),
                 FromFollow (NewBlock ''B'' ''C'' False), FromFollow (Finalized [''B'', ''C'']),
                 Tick, Tick])
     = Some (Inr (''A'', ''C'', {''C''}, [[''B'', ''A'']]))"
  by (simp add: evals)

text \<open>
  C7. In every state the stream reaches, a tracked block whose refCount is above zero is
  removed by no step: it is in no set the cleaner emits, hence in no unpin event, and it
  is still in blocks after the step.
\<close>

theorem removal_needs_zero_refCount:
  assumes "run start ins = Some (Inr s)"
    and "step s i = Some (Inr s')"
    and "blocks (acc s) x = Some b"
    and "refCount b > 0"
  shows "x \<in> dom (blocks (acc s')) \<and> x \<notin> set (emitted s s')"
proof -
  let ?bs = "blocks (acc s)" and ?fin = "finalized (acc s)"
  have ok: "keysOk ?bs" using assms(1) by (rule reachable_keysOk)
  from assms(3) have d: "x \<in> dom ?bs" by auto
  from step_effect [OF assms(2)] show ?thesis
  proof (elim disjE exE conjE)
    assume "dom ?bs \<subseteq> dom (blocks (acc s'))" and "unpinned s' = unpinned s"
    with d show ?thesis by (auto simp: emitted_def)
  next
    fix pv current
    assume c: "cleanerCollect (acc s) = Some (Inr current)"
      and b: "blocks (acc s') = foldl unpinOne ?bs (confirmed pv current)"
      and u: "unpinned s' = unpinned s @ [confirmed pv current]"
    from collect_sound(1) [OF ok c] assms(3,4) have "x \<notin> set current"
      by (auto simp: zeroAncestors_def)
    then have "x \<notin> set (confirmed pv current)" by (simp add: set_confirmed)
    with d b u show ?thesis by (simp add: unpin_dom emitted_def)
  qed
qed

theorem removal_needs_zero_refCount_witness:
  "\<exists>s s' b. run start [FromFollow (Initialized ''G'' ''P'' 0), FromFollow (NewBlock ''G'' ''A'' False),
                        FromFollow (NewBlock ''A'' ''B'' False), FromFollow (Finalized [''B'']),
                        Tick, FromBlockUsage (Hold ''A'')] = Some (Inr s)
     \<and> step s Tick = Some (Inr s')
     \<and> blocks (acc s) ''A'' = Some b \<and> refCount b > 0
     \<and> emitted s s' = [''G'']
     \<and> ''A'' \<in> dom (blocks (acc s')) \<and> ''A'' \<notin> set (emitted s s')"
proof -
  let ?ins = "[FromFollow (Initialized ''G'' ''P'' 0), FromFollow (NewBlock ''G'' ''A'' False),
               FromFollow (NewBlock ''A'' ''B'' False), FromFollow (Finalized [''B'']),
               Tick, FromBlockUsage (Hold ''A'')]"
  have "\<exists>s s' b. run start ?ins = Some (Inr s) \<and> step s Tick = Some (Inr s')
          \<and> emitted s s' = [''G''] \<and> blocks (acc s) ''A'' = Some b \<and> refCount b > 0"
    by (simp add: evals)
  then obtain s s' b where r: "run start ?ins = Some (Inr s)"
    and t: "step s Tick = Some (Inr s')" and e: "emitted s s' = [''G'']"
    and a: "blocks (acc s) ''A'' = Some b" and c: "refCount b > 0"
    by (elim exE conjE)
  from removal_needs_zero_refCount [OF r t a c]
  have k: "''A'' \<in> dom (blocks (acc s'))" and n: "''A'' \<notin> set (emitted s s')" by simp_all
  show ?thesis
    by (rule exI [of _ s], rule exI [of _ s'], rule exI [of _ b]) (intro conjI r t a c e k n)
qed

text \<open>
  C10. In every state the stream reaches, a tracked block that is not reached from the
  finalized block by following parent links (a block on a side fork, a descendant of
  finalized, finalized itself) is never collected by the cleaner, is in no set it emits,
  and is still in blocks after any step, whatever its refCount.
\<close>

theorem cleaner_only_collects_ancestors:
  assumes "run start ins = Some (Inr s)"
    and "step s i = Some (Inr s')"
    and "x \<in> dom (blocks (acc s))"
    and "\<not> ancestor (blocks (acc s)) (finalized (acc s)) x"
  shows "x \<in> dom (blocks (acc s')) \<and> x \<notin> set (emitted s s')
       \<and> (\<forall>current. cleanerCollect (acc s) = Some (Inr current) \<longrightarrow> x \<notin> set current)"
proof -
  let ?bs = "blocks (acc s)" and ?fin = "finalized (acc s)"
  have ok: "keysOk ?bs" using assms(1) by (rule reachable_keysOk)
  have n: "x \<notin> set current" if "cleanerCollect (acc s) = Some (Inr current)" for current
    using collect_sound(1) [OF ok that] assms(4) by (simp add: zeroAncestors_def)
  from step_effect [OF assms(2)]
  have "x \<in> dom (blocks (acc s')) \<and> x \<notin> set (emitted s s')"
  proof (elim disjE exE conjE)
    assume "dom ?bs \<subseteq> dom (blocks (acc s'))" and "unpinned s' = unpinned s"
    with assms(3) show ?thesis by (auto simp: emitted_def)
  next
    fix pv current
    assume c: "cleanerCollect (acc s) = Some (Inr current)"
      and b: "blocks (acc s') = foldl unpinOne ?bs (confirmed pv current)"
      and u: "unpinned s' = unpinned s @ [confirmed pv current]"
    from n [OF c] have "x \<notin> set (confirmed pv current)" by (simp add: set_confirmed)
    with assms(3) b u show ?thesis by (simp add: unpin_dom emitted_def)
  qed
  with n show ?thesis by auto
qed

theorem cleaner_only_collects_ancestors_witness:
  "\<exists>s s'. run start [FromFollow (Initialized ''A'' ''P'' 0), FromFollow (NewBlock ''A'' ''B'' False),
                      FromFollow (NewBlock ''A'' ''F'' False), FromFollow (Finalized [''B'']),
                      Tick] = Some (Inr s)
     \<and> step s Tick = Some (Inr s')
     \<and> ''F'' \<in> dom (blocks (acc s))
     \<and> \<not> ancestor (blocks (acc s)) (finalized (acc s)) ''F''
     \<and> cleanerCollect (acc s) = Some (Inr [''A''])
     \<and> emitted s s' = [''A'']
     \<and> ''F'' \<in> dom (blocks (acc s')) \<and> ''F'' \<notin> set (emitted s s') \<and> ''F'' \<notin> set [''A'']"
proof -
  let ?ins = "[FromFollow (Initialized ''A'' ''P'' 0), FromFollow (NewBlock ''A'' ''B'' False),
               FromFollow (NewBlock ''A'' ''F'' False), FromFollow (Finalized [''B'']), Tick]"
  have "\<exists>s s' nodeA nodeB nodeF. run start ?ins = Some (Inr s) \<and> step s Tick = Some (Inr s')
          \<and> emitted s s' = [''A''] \<and> cleanerCollect (acc s) = Some (Inr [''A''])
          \<and> finalized (acc s) = ''B''
          \<and> blocks (acc s) ''F'' = Some nodeF
          \<and> blocks (acc s) ''B'' = Some nodeB \<and> parent nodeB = ''A''
          \<and> blocks (acc s) ''A'' = Some nodeA \<and> parent nodeA = ''P''
          \<and> blocks (acc s) ''P'' = None"
    by (simp add: evals)
  then obtain s s' nodeA nodeB nodeF where r: "run start ?ins = Some (Inr s)"
    and t: "step s Tick = Some (Inr s')" and e: "emitted s s' = [''A'']"
    and cc: "cleanerCollect (acc s) = Some (Inr [''A''])"
    and f: "finalized (acc s) = ''B''"
    and nf: "blocks (acc s) ''F'' = Some nodeF"
    and b: "blocks (acc s) ''B'' = Some nodeB" "parent nodeB = ''A''"
    and a: "blocks (acc s) ''A'' = Some nodeA" "parent nodeA = ''P''"
    and p: "blocks (acc s) ''P'' = None"
    by (elim exE conjE)
  from nf have d: "''F'' \<in> dom (blocks (acc s))" by (rule domI)
  from a p have ra: "ancestors (blocks (acc s)) ''A'' = {}"
    by (simp add: ancestors_root)
  have "ancestors (blocks (acc s)) ''B'' =
          insert (parent nodeB) (ancestors (blocks (acc s)) (parent nodeB))"
    using b(1) a(1) b(2) by (intro ancestors_step) auto
  with b(2) ra have "ancestors (blocks (acc s)) ''B'' = {''A''}" by simp
  then have "''F'' \<notin> ancestors (blocks (acc s)) ''B''" by simp
  with f have na: "\<not> ancestor (blocks (acc s)) (finalized (acc s)) ''F''"
    by (simp add: ancestors_def)
  from cleaner_only_collects_ancestors [OF r t d na]
  have k: "''F'' \<in> dom (blocks (acc s'))" and n: "''F'' \<notin> set (emitted s s')"
    and m: "\<forall>current. cleanerCollect (acc s) = Some (Inr current) \<longrightarrow> ''F'' \<notin> set current"
    by simp_all
  from m cc have l: "''F'' \<notin> set [''A'']" by (elim allE impE)
  show ?thesis
    by (rule exI [of _ s], rule exI [of _ s']) (intro conjI r t d na cc e k n l)
qed

text \<open>
  C4. The two-tick debounce. At a tick that reads a snapshot and collects a set, the
  tick succeeds and keeps the collected set for the next tick, and no fold in between
  changes what is kept; a hash is emitted at this tick exactly when it was collected at
  the previous tick and is collected at this one; and a hash is collected exactly when
  it is an ancestor of the finalized block with refCount 0. So a block that a hold has
  raised above zero since the previous tick is not emitted, and the first tick emits
  nothing.
\<close>

theorem cleaner_two_tick_debounce:
  assumes "run start ins = Some (Inr s)"
    and "published s"
    and "cleanerCollect (acc s) = Some (Inr current)"
  shows "\<exists>s'. tick s = Some (Inr s') \<and> previous s' = Some current
          \<and> (x \<in> set (emitted s s') \<longleftrightarrow>
               (\<exists>pv. previous s = Some pv \<and> x \<in> set pv) \<and> x \<in> set current)
          \<and> (x \<in> set current \<longleftrightarrow>
               ancestor (blocks (acc s)) (finalized (acc s)) x
               \<and> (\<exists>b. blocks (acc s) x = Some b \<and> refCount b = 0))
          \<and> (foldEvent s' e = Inr sn \<longrightarrow> previous sn = Some current)"
proof -
  have ok: "keysOk (blocks (acc s))" using assms(1) by (rule reachable_keysOk)
  have k: "previous sn = Some current"
    if "previous s' = Some current" and "foldEvent s' e = Inr sn" for s'
    using that foldEvent_Inr [of s' e sn] by simp
  have z: "x \<in> set current \<longleftrightarrow>
             ancestor (blocks (acc s)) (finalized (acc s)) x
             \<and> (\<exists>b. blocks (acc s) x = Some b \<and> refCount b = 0)"
    using collect_sound(1) [OF ok assms(3)] by (simp add: zeroAncestors_def)
  show ?thesis
  proof (cases "previous s")
    case None
    with assms(2,3) have "tick s = Some (Inr (s\<lparr>previous := Some current\<rparr>))"
      by (simp add: tick_def)
    with None z k [of "s\<lparr>previous := Some current\<rparr>"] show ?thesis
      by (simp add: emitted_def)
  next
    case (Some pv)
    show ?thesis
    proof (cases "confirmed pv current = []")
      case True
      with Some assms(2,3) have "tick s = Some (Inr (s\<lparr>previous := Some current\<rparr>))"
        by (simp add: tick_def)
      moreover from True have "\<not> (x \<in> set pv \<and> x \<in> set current)"
        using set_confirmed [of pv current] by auto
      ultimately show ?thesis using Some z k [of "s\<lparr>previous := Some current\<rparr>"]
        by (simp add: emitted_def)
    next
      case False
      with Some assms(2,3) obtain s' where
        t: "tick s = Some (Inr s')" and p: "previous s' = Some current"
        and u: "unpinned s' = unpinned s @ [confirmed pv current]"
        by (auto simp: tick_def foldEvent_def Let_def)
      from u have "set (emitted s s') = set pv \<inter> set current"
        by (simp add: emitted_def set_confirmed)
      with t p Some z k [OF p] show ?thesis by auto
    qed
  qed
qed

theorem cleaner_two_tick_debounce_witness:
  "\<exists>s. run start [FromFollow (Initialized ''G'' ''P'' 0), FromFollow (NewBlock ''G'' ''A'' False),
                   FromFollow (NewBlock ''A'' ''B'' False), FromFollow (Finalized [''B'']),
                   Tick, FromBlockUsage (Hold ''A'')] = Some (Inr s)
     \<and> published s
     \<and> previous s = Some [''A'', ''G'']
     \<and> cleanerCollect (acc s) = Some (Inr [''G''])
     \<and> (\<exists>s'. tick s = Some (Inr s') \<and> previous s' = Some [''G'']
            \<and> ''A'' \<notin> set (emitted s s'))"
proof -
  let ?ins = "[FromFollow (Initialized ''G'' ''P'' 0), FromFollow (NewBlock ''G'' ''A'' False),
               FromFollow (NewBlock ''A'' ''B'' False), FromFollow (Finalized [''B'']),
               Tick, FromBlockUsage (Hold ''A'')]"
  have "\<exists>s. run start ?ins = Some (Inr s) \<and> published s \<and> previous s = Some [''A'', ''G'']
          \<and> cleanerCollect (acc s) = Some (Inr [''G''])"
    by (simp add: evals)
  then obtain s where r: "run start ?ins = Some (Inr s)" and p: "published s"
    and pv: "previous s = Some [''A'', ''G'']"
    and c: "cleanerCollect (acc s) = Some (Inr [''G''])"
    by (elim exE conjE)
  from cleaner_two_tick_debounce [OF r p c, where x = "''A''" and e = "Unpin []" and sn = s]
  obtain s' where t: "tick s = Some (Inr s')" and q: "previous s' = Some [''G'']"
    and i: "(''A'' \<in> set (emitted s s')) =
              ((\<exists>pv. previous s = Some pv \<and> ''A'' \<in> set pv) \<and> ''A'' \<in> set [''G''])"
    by (elim exE conjE)
  from i have n: "''A'' \<notin> set (emitted s s')" by simp
  have w: "\<exists>s'. tick s = Some (Inr s') \<and> previous s' = Some [''G'']
             \<and> ''A'' \<notin> set (emitted s s')"
    by (rule exI [of _ s']) (intro conjI t q n)
  show ?thesis
    by (rule exI [of _ s]) (intro conjI r p pv c w)
qed

section \<open>Published snapshots\<close>

lemma scanStep_refs:
  assumes "scanStep st e = Inr st'"
  shows "blocksRef (snd st') = blocksRef (snd st) \<and> runtimesRef (snd st') = runtimesRef (snd st)
         \<and> allocated st'"
  using assms by (auto simp: scanStep_def allocated_def split: option.splits sum.splits)

lemma scanAll_refs:
  "scanAll st es = Inr st' \<Longrightarrow> allocated st \<Longrightarrow>
     blocksRef (snd st') = blocksRef (snd st) \<and> runtimesRef (snd st') = runtimesRef (snd st)
     \<and> allocated st'"
proof (induction es arbitrary: st)
  case Nil
  then show ?case by simp
next
  case (Cons e es)
  from Cons.prems(1) obtain st1 where s: "scanStep st e = Inr st1" and r: "scanAll st1 es = Inr st'"
    by (auto split: sum.splits)
  from scanStep_refs [OF s] Cons.IH [OF r] show ?case by simp
qed

text \<open>The scan on the store computes what the reducer computes on the contents.\<close>

lemma scanStep_load:
  assumes "scanStep st e = Inr st'"
  shows "\<exists>a a'. load (fst st) (snd st) = Some a \<and> reducer a e = Inr a'
           \<and> load (fst st') (snd st') = Some a'"
  using assms by (auto simp: scanStep_def load_def split: option.splits sum.splits)

lemma scanAll_scan:
  "scanAll st es = Inr st' \<Longrightarrow> load (fst st) (snd st) = Some a \<Longrightarrow>
     \<exists>a'. scan a es = Inr a' \<and> load (fst st') (snd st') = Some a'"
proof (induction es arbitrary: st a)
  case Nil
  then show ?case by simp
next
  case (Cons e es)
  from Cons.prems(1) obtain st1 where s: "scanStep st e = Inr st1" and r: "scanAll st1 es = Inr st'"
    by (auto split: sum.splits)
  from scanStep_load [OF s] Cons.prems(2) obtain a1 where
    "reducer a e = Inr a1" and "load (fst st1) (snd st1) = Some a1" by auto
  with Cons.IH [OF r] show ?case by auto
qed

lemma load_seedStore: "load (fst seedStore) (snd seedStore) = Some seed"
  by (simp add: load_def seedStore_def seed_def)

text \<open>
  C2, as the code has it. The fold changes its accumulator in place and publishes a
  shallow copy of it after each step. Whatever is folded later, a published snapshot
  keeps the best and finalized pointers it was published with; its blocks and its
  runtimes, however, are the containers of the accumulator itself, so a consumer that
  reads them later finds the blocks, children sets, refCounts and runtimes as the latest
  fold left them.
\<close>

theorem published_snapshot_shares_containers:
  assumes "scanAll seedStore es = Inr st1" and "scanAll st1 later = Inr st2"
  shows "\<exists>v live. viewAfter es later = Some v \<and> load (fst st2) (snd st2) = Some live
           \<and> best v = bestF (snd st1) \<and> finalized v = finalizedF (snd st1)
           \<and> blocks v = blocks live \<and> runtimes v = runtimes live"
proof -
  have a0: "allocated seedStore" by (simp add: allocated_def seedStore_def)
  from scanAll_refs [OF assms(1) a0] have a1: "allocated st1" by simp
  from scanAll_refs [OF assms(2) a1]
  have r: "blocksRef (snd st2) = blocksRef (snd st1)" "runtimesRef (snd st2) = runtimesRef (snd st1)"
    and a2: "allocated st2" by simp_all
  from a2 obtain live where l: "load (fst st2) (snd st2) = Some live"
    by (auto simp: allocated_def load_def split: option.splits)
  with r assms show ?thesis
    by (auto simp: viewAfter_def load_def shallowCopy_def split: option.splits)
qed

theorem published_snapshot_shares_containers_witness:
  "\<exists>st1 st2. scanAll seedStore [Follow (Initialized ''A'' ''P'' 0)] = Inr st1
     \<and> scanAll st1 [Follow (NewBlock ''A'' ''B'' False), Follow (BestBlockChanged ''B'')] = Inr st2
     \<and> bestF (snd st1) = ''A'' \<and> bestF (snd st2) = ''B''
     \<and> (\<exists>v live. viewAfter [Follow (Initialized ''A'' ''P'' 0)]
                     [Follow (NewBlock ''A'' ''B'' False), Follow (BestBlockChanged ''B'')] = Some v
           \<and> load (fst st2) (snd st2) = Some live
           \<and> best v = bestF (snd st1) \<and> finalized v = finalizedF (snd st1)
           \<and> blocks v = blocks live \<and> runtimes v = runtimes live)"
proof -
  let ?es = "[Follow (Initialized ''A'' ''P'' 0)]"
  let ?later = "[Follow (NewBlock ''A'' ''B'' False), Follow (BestBlockChanged ''B'')]"
  have "\<exists>st1 st2. scanAll seedStore ?es = Inr st1 \<and> scanAll st1 ?later = Inr st2
          \<and> bestF (snd st1) = ''A'' \<and> bestF (snd st2) = ''B''"
    by (simp add: seedStore_def scanStep_def load_def getRuntime_def addBlock_def)
  then obtain st1 st2 where s1: "scanAll seedStore ?es = Inr st1"
    and s2: "scanAll st1 ?later = Inr st2"
    and b1: "bestF (snd st1) = ''A''" and b2: "bestF (snd st2) = ''B''"
    by (elim exE conjE)
  note v = published_snapshot_shares_containers [OF s1 s2]
  show ?thesis
    by (rule exI [of _ st1], rule exI [of _ st2]) (intro conjI s1 s2 b1 b2 v)
qed

text \<open>
  C2, as the claim states it, fails: the snapshot published after initialized(A) shows
  only A in its blocks; once newBlock(parent A, hash B) has been folded, the same
  snapshot shows A and B, and its node A has B among its children.
\<close>

theorem published_snapshot_mutated:
  "map_option (\<lambda>v. dom (blocks v)) (viewAfter [Follow (Initialized ''A'' ''P'' 0)] []) = Some {''A''}
   \<and> map_option (\<lambda>v. map_option children (blocks v ''A''))
        (viewAfter [Follow (Initialized ''A'' ''P'' 0)] []) = Some (Some {})
   \<and> map_option (\<lambda>v. dom (blocks v))
        (viewAfter [Follow (Initialized ''A'' ''P'' 0)] [Follow (NewBlock ''A'' ''B'' False)])
      = Some {''B'', ''A''}
   \<and> map_option (\<lambda>v. map_option children (blocks v ''A''))
        (viewAfter [Follow (Initialized ''A'' ''P'' 0)] [Follow (NewBlock ''A'' ''B'' False)])
      = Some (Some {''B''})"
  by (simp add: viewAfter_def seedStore_def scanStep_def load_def shallowCopy_def
      getRuntime_def addBlock_def)

end
